theory Spec2Isabelle
  imports Complex_Main "HOL-Library.AList"
begin

section \<open>Strings and JavaScript values\<close>

text \<open>
  Strings are lists of 8-bit characters. The white space of \<^verbatim>\<open>String.prototype.trim\<close> and of
  the regular-expression class \<^verbatim>\<open>\s\<close> is taken to be the ASCII part of it (TAB, LF, VT, FF,
  CR, SPACE); the non-ASCII members (U+00A0, U+FEFF, ...) have no counterpart in this
  character type.
\<close>

definition is_space :: "char \<Rightarrow> bool" where
  "is_space c \<longleftrightarrow> c \<in> set [CHR 0x09, CHR 0x0A, CHR 0x0B, CHR 0x0C, CHR 0x0D, CHR '' '']"

text \<open>The character class \<^verbatim>\<open>[a-zA-Z]\<close>.\<close>

definition is_alpha :: "char \<Rightarrow> bool" where
  "is_alpha c \<longleftrightarrow>
     (let n = (of_char c :: nat) in (65 \<le> n \<and> n \<le> 90) \<or> (97 \<le> n \<and> n \<le> 122))"

definition trim :: "string \<Rightarrow> string" where
  "trim s = rev (dropWhile is_space (rev (dropWhile is_space s)))"

text \<open>
  The values a row or a parsed model reply can hold. JavaScript numbers are restricted to
  the integers, printed in decimal; objects are association lists in property order.
\<close>

datatype jsval = JNull | JBool bool | JNum int | JStr string
  | JArr "jsval list" | JObj "(string \<times> jsval) list"

type_synonym row = "(string \<times> jsval) list"

fun join :: "string \<Rightarrow> string list \<Rightarrow> string" where
  "join sep [] = []"
| "join sep [x] = x"
| "join sep (x # y # ys) = x @ sep @ join sep (y # ys)"

definition digit_char :: "nat \<Rightarrow> char" where
  "digit_char d = char_of (48 + d)"

function show_nat :: "nat \<Rightarrow> string" where
  "show_nat n = (if n < 10 then [digit_char n] else show_nat (n div 10) @ [digit_char (n mod 10)])"
  by pat_completeness auto
termination
  by (relation "measure id") auto

definition show_int :: "int \<Rightarrow> string" where
  "show_int i = (if i < 0 then CHR ''-'' # show_nat (nat (- i)) else show_nat (nat i))"

text \<open>\<^verbatim>\<open>String(v)\<close>: the string form of a value.\<close>

fun js_String :: "jsval \<Rightarrow> string" where
  "js_String JNull = ''null''"
| "js_String (JBool b) = (if b then ''true'' else ''false'')"
| "js_String (JNum i) = show_int i"
| "js_String (JStr s) = s"
| "js_String (JArr xs) = join '','' (map (\<lambda>v. if v = JNull then [] else js_String v) xs)"
| "js_String (JObj kvs) = ''[object Object]''"

text \<open>\<^verbatim>\<open>JSON.stringify(v)\<close> without indentation.\<close>

definition hex_char :: "nat \<Rightarrow> char" where
  "hex_char d = (if d < 10 then char_of (48 + d) else char_of (87 + d))"

definition quote_char :: "char \<Rightarrow> string" where
  "quote_char c =
     (if c = CHR 0x22 then [CHR 0x5C, CHR 0x22]
      else if c = CHR 0x5C then [CHR 0x5C, CHR 0x5C]
      else if c = CHR 0x08 then [CHR 0x5C, CHR ''b'']
      else if c = CHR 0x0C then [CHR 0x5C, CHR ''f'']
      else if c = CHR 0x0A then [CHR 0x5C, CHR ''n'']
      else if c = CHR 0x0D then [CHR 0x5C, CHR ''r'']
      else if c = CHR 0x09 then [CHR 0x5C, CHR ''t'']
      else if (of_char c :: nat) < 32
        then [CHR 0x5C, CHR ''u'', CHR ''0'', CHR ''0'',
              hex_char ((of_char c :: nat) div 16), hex_char ((of_char c :: nat) mod 16)]
      else [c])"

definition quote :: "string \<Rightarrow> string" where
  "quote s = CHR 0x22 # concat (map quote_char s) @ [CHR 0x22]"

fun stringify :: "jsval \<Rightarrow> string" where
  "stringify JNull = ''null''"
| "stringify (JBool b) = (if b then ''true'' else ''false'')"
| "stringify (JNum i) = show_int i"
| "stringify (JStr s) = quote s"
| "stringify (JArr xs) = ''['' @ join '','' (map stringify xs) @ '']''"
| "stringify (JObj kvs) =
     ''{'' @ join '','' (map (\<lambda>kv. quote (fst kv) @ '':'' @ stringify (snd kv)) kvs) @ ''}''"

section \<open>Template renderer\<close>

text \<open>
  \<^verbatim>\<open>tpl.replace(/\{\{\s*([^}]+)\s*\}\}/g, (_, key) => ...)\<close>.
  \<open>match_placeholder\<close> is one attempt of the regular expression at the head of the text:
  two opening braces, then the characters up to the first closing brace (at least one),
  then two closing braces. The greedy \<^verbatim>\<open>\s*\<close> takes the leading white space and the group
  the rest; when everything between the braces is white space the group keeps the last
  character. The result is the captured group and the text after the match.
\<close>

definition match_placeholder :: "string \<Rightarrow> (string \<times> string) option" where
  "match_placeholder s =
     (if take 2 s = ''{{'' then
        let body = takeWhile (\<lambda>c. c \<noteq> CHR ''}'') (drop 2 s);
            rest = dropWhile (\<lambda>c. c \<noteq> CHR ''}'') (drop 2 s);
            lead = dropWhile is_space body
        in if body \<noteq> [] \<and> take 2 rest = ''}}''
           then Some (if lead = [] then [last body] else lead, drop 2 rest)
           else None
      else None)"

text \<open>
  The replacement callback: \<^verbatim>\<open>const k = String(key).trim(); if (k === "json") return
  JSON.stringify(row); return row[k] != null ? String(row[k]) : "";\<close>. A row is a finite
  mapping; properties inherited from \<^verbatim>\<open>Object.prototype\<close> are outside this model.
\<close>

definition replacement :: "row \<Rightarrow> string \<Rightarrow> string" where
  "replacement r key =
     (let k = trim key in
      if k = ''json'' then stringify (JObj r)
      else (case map_of r k of
              Some v \<Rightarrow> if v \<noteq> JNull then js_String v else []
            | None \<Rightarrow> []))"

function renderTemplate :: "string \<Rightarrow> row \<Rightarrow> string" where
  "renderTemplate [] r = []"
| "renderTemplate (c # cs) r =
     (case match_placeholder (c # cs) of
        Some (key, rest) \<Rightarrow> replacement r key @ renderTemplate rest r
      | None \<Rightarrow> c # renderTemplate cs r)"
  by pat_completeness auto
termination
proof (relation "measure (\<lambda>(s, r). length s)")
  fix c :: char and cs :: string and r :: row and x2 :: "string \<times> string" and key rest :: string
  assume m: "match_placeholder (c # cs) = Some x2" and x2: "(key, rest) = x2"
  from m have two: "take 2 (c # cs) = ''{{''"
    by (auto simp: match_placeholder_def split: if_splits)
  then have "2 \<le> length (c # cs)"
    by (cases cs) auto
  moreover from m two x2
  have "rest = drop 2 (dropWhile (\<lambda>c. c \<noteq> CHR ''}'') (drop 2 (c # cs)))"
    by (auto simp: match_placeholder_def Let_def split: if_splits)
  moreover have "length (dropWhile (\<lambda>c. c \<noteq> CHR ''}'') (drop 2 (c # cs))) \<le> length (drop 2 (c # cs))"
    by (rule length_dropWhile_le)
  ultimately have "length rest < length (c # cs)" by simp
  then show "((rest, r), (c # cs, r)) \<in> measure (\<lambda>(s, r). length s)" by simp
qed simp_all


section \<open>Response parser\<close>

text \<open>
  \<^verbatim>\<open>t.replace(/^```[a-zA-Z]*\n?/, "")\<close>, applied to a text that starts with three backticks,
  and \<^verbatim>\<open>.replace(/```\s*$/, "")\<close>: the leftmost three backticks that only white space
  separates from the end of the text.
\<close>

definition strip_open :: "string \<Rightarrow> string" where
  "strip_open t =
     (let u = dropWhile is_alpha (drop 3 t)
      in case u of [] \<Rightarrow> [] | c # cs \<Rightarrow> if c = CHR 0x0A then cs else u)"

fun strip_close :: "string \<Rightarrow> string" where
  "strip_close [] = []"
| "strip_close (c # cs) =
     (if take 3 (c # cs) = ''```'' \<and> list_all is_space (drop 3 (c # cs)) then []
      else c # strip_close cs)"

definition stripCodeFences :: "string \<Rightarrow> string" where
  "stripCodeFences s =
     (let t = trim s;
          t = (if take 3 t = ''```'' then strip_close (strip_open t) else t)
      in trim t)"

text \<open>\<^verbatim>\<open>indexOf\<close>, \<^verbatim>\<open>lastIndexOf\<close> (\<open>-1\<close> when the character is absent) and \<^verbatim>\<open>slice\<close>.\<close>

fun indexOf :: "string \<Rightarrow> char \<Rightarrow> int" where
  "indexOf [] c = - 1"
| "indexOf (x # xs) c =
     (if x = c then 0 else (let i = indexOf xs c in if i < 0 then - 1 else i + 1))"

definition lastIndexOf :: "string \<Rightarrow> char \<Rightarrow> int" where
  "lastIndexOf s c =
     (let i = indexOf (rev s) c in if i < 0 then - 1 else int (length s) - 1 - i)"

definition slice :: "string \<Rightarrow> int \<Rightarrow> int \<Rightarrow> string" where
  "slice s a b =
     (let n = int (length s);
          from = (if a < 0 then max (n + a) 0 else min a n);
          to = (if b < 0 then max (n + b) 0 else min b n)
      in take (nat (to - from)) (drop (nat from) s))"

text \<open>
  \<^verbatim>\<open>JSON.parse\<close> belongs to the platform and is a parameter: it returns the parsed value
  (\<open>Inr\<close>) or throws, which is \<open>Inl\<close> of the text \<^verbatim>\<open>e?.message || String(e)\<close> of the exception.
  The result of \<open>parseJsonLoose\<close> is \<open>Inr value\<close> for \<^verbatim>\<open>{ ok: true, value }\<close> and
  \<open>Inl error\<close> for \<^verbatim>\<open>{ ok: false, error }\<close>.
\<close>

definition parseJsonLoose :: "(string \<Rightarrow> string + 'v) \<Rightarrow> string \<Rightarrow> string + 'v" where
  "parseJsonLoose parse s =
     (if s = [] \<or> trim s = [] then Inl ''empty''
      else
        let t = stripCodeFences s in
        case parse t of
          Inr v \<Rightarrow> Inr v
        | Inl e1 \<Rightarrow>
            (let start = indexOf t CHR ''{'';
                 end = lastIndexOf t CHR ''}''
             in if start \<ge> 0 \<and> end > start
                then (case parse (slice t start (end + 1)) of
                        Inr v \<Rightarrow> Inr v
                      | Inl e2 \<Rightarrow> Inl e2)
                else Inl e1))"


section \<open>Cost estimate\<close>

text \<open>
  Prices are exact rationals here; the source computes with IEEE doubles, whose rounding
  is not part of this model. Token counts are natural numbers.
\<close>

definition pricePer1k :: "(string \<times> rat \<times> rat) list" where
  "pricePer1k =
     [(''gpt-4o'', 5 / 2, 10),
      (''gpt-4o-mini'', 15 / 100, 6 / 10),
      (''gpt-4.1-mini'', 2 / 10, 8 / 10),
      (''gpt-3.5-turbo'', 5 / 10, 15 / 10)]"

record pricing =
  promptUSD :: rat
  completionUSD :: rat
  totalUSD :: rat

definition estimateOpenAIPrice :: "string \<Rightarrow> nat \<Rightarrow> nat \<Rightarrow> pricing" where
  "estimateOpenAIPrice model promptTokens completionTokens =
     (let p = (case map_of pricePer1k model of
                 Some q \<Rightarrow> q
               | None \<Rightarrow> the (map_of pricePer1k ''gpt-4o-mini''));
          promptUSD = (of_nat promptTokens / 1000) * fst p;
          completionUSD = (of_nat completionTokens / 1000) * snd p
      in \<lparr>promptUSD = promptUSD, completionUSD = completionUSD,
          totalUSD = promptUSD + completionUSD\<rparr>)"

section \<open>Concurrency limiter\<close>

text \<open>
  The two refs of \<^verbatim>\<open>useConcurrentQueue\<close>: the counter \<^verbatim>\<open>running\<close> and the queue of
  resolvers, each named by the call of \<^verbatim>\<open>run\<close> it belongs to. The four pieces of \<^verbatim>\<open>run\<close>:
  the test \<^verbatim>\<open>running.current >= limit\<close>, \<^verbatim>\<open>queue.current.push(resolve)\<close>,
  \<^verbatim>\<open>running.current++\<close>, and the \<^verbatim>\<open>finally\<close> block, which decrements the counter, shifts
  the queue and calls the resolver it took, if any.
\<close>

record limiter =
  running :: int
  queue :: "nat list"

definition idle :: limiter where
  "idle = \<lparr>running = 0, queue = []\<rparr>"

definition at_limit :: "int \<Rightarrow> limiter \<Rightarrow> bool" where
  "at_limit limit L \<longleftrightarrow> running L \<ge> limit"

definition wait_turn :: "nat \<Rightarrow> limiter \<Rightarrow> limiter" where
  "wait_turn t L = L\<lparr>queue := queue L @ [t]\<rparr>"

definition occupy :: "limiter \<Rightarrow> limiter" where
  "occupy L = L\<lparr>running := running L + 1\<rparr>"

definition vacate :: "limiter \<Rightarrow> nat option \<times> limiter" where
  "vacate L =
     (case queue L of
        [] \<Rightarrow> (None, L\<lparr>running := running L - 1\<rparr>)
      | t # ts \<Rightarrow> (Some t, L\<lparr>running := running L - 1, queue := ts\<rparr>))"

text \<open>
  The limiter on its own, under any sequence of calls. A call of \<^verbatim>\<open>run\<close> is in \<open>inside\<close>
  from \<^verbatim>\<open>running.current++\<close> to its \<^verbatim>\<open>finally\<close> block. A waiter whose resolver has been
  called is in \<open>resolved\<close> until its continuation runs: an \<^verbatim>\<open>await\<close> resumes in a later
  microtask, never inside the call of the resolver.
\<close>

record pool =
  gate :: limiter
  resolved :: "nat list"
  inside :: "nat list"

datatype call = Submit nat | Continue nat | Finish nat

definition pool_step :: "int \<Rightarrow> call \<Rightarrow> pool \<Rightarrow> pool option" where
  "pool_step limit c P =
     (case c of
        Submit t \<Rightarrow>
          if t \<in> set (queue (gate P)) \<union> set (resolved P) \<union> set (inside P) then None
          else if at_limit limit (gate P)
            then Some (P\<lparr>gate := wait_turn t (gate P)\<rparr>)
            else Some (P\<lparr>gate := occupy (gate P), inside := inside P @ [t]\<rparr>)
      | Continue t \<Rightarrow>
          if t \<in> set (resolved P)
          then Some (P\<lparr>gate := occupy (gate P), resolved := remove1 t (resolved P),
                      inside := inside P @ [t]\<rparr>)
          else None
      | Finish t \<Rightarrow>
          if t \<in> set (inside P)
          then (case vacate (gate P) of
                  (nxt, L) \<Rightarrow>
                    Some (P\<lparr>gate := L, inside := remove1 t (inside P),
                            resolved := resolved P @ (case nxt of None \<Rightarrow> [] | Some u \<Rightarrow> [u])\<rparr>))
          else None)"



text \<open>
  The account the limiter keeps while nobody submits into the gap between the release
  of a waiter and its resumption: the counter is the number of calls inside, and calls
  inside plus resolved waiters stay within the limit.
\<close>

definition pool_inv :: "int \<Rightarrow> pool \<Rightarrow> bool" where
  "pool_inv limit P \<longleftrightarrow>
     running (gate P) = int (length (inside P)) \<and>
     running (gate P) + int (length (resolved P)) \<le> limit"

section \<open>Batch orchestrator\<close>

text \<open>
  What the closure of \<^verbatim>\<open>handleStart\<close> captures. \<open>jsonParse\<close> is the platform's
  \<^verbatim>\<open>JSON.parse\<close>. The system prompt and the temperature are passed unchanged to every
  request and are left out.
\<close>

record config =
  apiKey :: string
  model :: string
  userPrompt :: string
  concurrency :: int
  maxRetries :: int
  resultKey :: string
  textCol :: string
  jsonParse :: "string \<Rightarrow> string + jsval"

datatype run_status = Idle | Running | Paused | Done | Error

text \<open>
  The message line: a fixed text, or the text \<^verbatim>\<open>Done: processed n rows. Estimated cost
  ~$c USD\<close> with the number of rows and the total cost.
\<close>

datatype notice = Text string | DoneNotice nat rat

text \<open>
  Where the asynchronous call \<^verbatim>\<open>runConcurrent(async () => ...)\<close> for one row stands:
  suspended in the limiter's queue; resolved but not yet resumed; awaiting
  \<^verbatim>\<open>fetchOpenAIChat\<close> with the value of \<^verbatim>\<open>attempts\<close>; awaiting \<^verbatim>\<open>sleep(500 * attempts)\<close>;
  returned from the task body, with \<^verbatim>\<open>await task()\<close> in \<^verbatim>\<open>run\<close> pending; settled, after the
  \<^verbatim>\<open>finally\<close> block of \<^verbatim>\<open>run\<close>. The outcome records how the attempt loop was left: by the
  \<^verbatim>\<open>break\<close> after a reply, by the \<^verbatim>\<open>break\<close> after the last failed attempt, or by its
  condition.
\<close>

datatype outcome = Succeeded | Exhausted | Skipped

datatype phase = Queued | Resolved | InFlight nat | Sleeping nat
  | Returned outcome | Settled outcome

fun is_returned :: "phase \<Rightarrow> bool" where
  "is_returned (Returned out) = True"
| "is_returned (Settled out) = True"
| "is_returned p = False"

fun is_settled :: "phase \<Rightarrow> bool" where
  "is_settled (Settled out) = True"
| "is_settled p = False"

text \<open>
  The React state (\<open>rows\<close>, \<open>status\<close>, \<open>progress\<close>, \<open>message\<close>, \<open>errorLog\<close>, \<open>costInfo\<close>),
  the two refs (\<open>cancel\<close>, \<open>lim\<close>), and the locals of the running \<^verbatim>\<open>handleStart\<close>:
  \<open>source\<close> is the \<^verbatim>\<open>rows\<close> the closure captured, \<open>updatedRows\<close> its working copy.
  \<open>requests\<close> logs every call of \<^verbatim>\<open>fetchOpenAIChat\<close>: the row index and the user prompt.
\<close>

record batch =
  rows :: "row list"
  status :: run_status
  progress :: int
  message :: notice
  errorLog :: "(nat \<times> string) list"
  costInfo :: pricing
  cancel :: bool
  lim :: limiter
  source :: "row list"
  updatedRows :: "row list"
  completed :: nat
  promptTokens :: nat
  completionTokens :: nat
  phases :: "phase list"
  requests :: "(nat \<times> string) list"

text \<open>\<^verbatim>\<open>Math.round((completed / Math.max(1, totalCount)) * 100)\<close> and the clamp of the display.\<close>

definition progress_of :: "nat \<Rightarrow> nat \<Rightarrow> int" where
  "progress_of c totalCount = round ((of_nat c / of_nat (max 1 totalCount)) * (100 :: rat))"

definition progressValue :: "int \<Rightarrow> int" where
  "progressValue p = max 0 (min 100 p)"

definition limit_of :: "config \<Rightarrow> int" where
  "limit_of cfg = max 1 (concurrency cfg)"

text \<open>The prompt of a row: \<^verbatim>\<open>renderTemplate(effectivePrompt, { ...row, submission: submitText })\<close>.\<close>

definition task_prompt :: "config \<Rightarrow> row \<Rightarrow> string" where
  "task_prompt cfg r =
     (let submitText =
            (if textCol cfg \<noteq> [] then
               (case map_of r (textCol cfg) of
                  Some v \<Rightarrow> if v = JNull then [] else js_String v
                | None \<Rightarrow> [])
             else stringify (JObj r))
      in renderTemplate (userPrompt cfg) (AList.update ''submission'' (JStr submitText) r))"

text \<open>The row written after a reply, and the row written after the last failed attempt.\<close>

definition augmented :: "config \<Rightarrow> row \<Rightarrow> string \<Rightarrow> row" where
  "augmented cfg r raw =
     (let a = AList.update (resultKey cfg) (JStr raw) r in
      case parseJsonLoose (jsonParse cfg) raw of
        Inr val \<Rightarrow>
          (let a = AList.update ''eval.valid'' (JBool True) a;
               a = AList.update (resultKey cfg @ ''_json'') (JStr (stringify val)) a
           in case val of
                JObj kvs \<Rightarrow>
                  (let a = (case map_of kvs ''score'' of
                              Some v \<Rightarrow> AList.update ''eval.score'' v a
                            | None \<Rightarrow> a)
                   in case map_of kvs ''decision'' of
                        Some v \<Rightarrow> AList.update ''eval.decision'' v a
                      | None \<Rightarrow> a)
              | _ \<Rightarrow> a)
      | Inl e \<Rightarrow>
          AList.update (resultKey cfg @ ''_json'') (JStr [])
            (AList.update ''eval.valid'' (JBool False) a))"

definition exhausted_row :: "config \<Rightarrow> row \<Rightarrow> string \<Rightarrow> row" where
  "exhausted_row cfg r msg =
     AList.update ''eval.valid'' (JBool False)
       (AList.update (resultKey cfg) (JStr (''ERROR: '' @ msg)) r)"

text \<open>
  Leaving the attempt loop: \<^verbatim>\<open>completed++; setProgress(...)\<close>, and the task body returns.
\<close>

definition finish_body :: "nat \<Rightarrow> outcome \<Rightarrow> batch \<Rightarrow> batch" where
  "finish_body i out s =
     (let c = completed s + 1
      in s\<lparr>completed := c,
           progress := progress_of c (length (source s)),
           phases := (phases s)[i := Returned out]\<rparr>)"

text \<open>
  The head of \<^verbatim>\<open>while (attempts <= maxRetries && !cancelRef.current.cancel)\<close>: either the
  body is entered and \<^verbatim>\<open>fetchOpenAIChat\<close> is called, or the loop is left.
\<close>

definition loop_head :: "config \<Rightarrow> nat \<Rightarrow> nat \<Rightarrow> batch \<Rightarrow> batch" where
  "loop_head cfg i attempts s =
     (if int attempts \<le> maxRetries cfg \<and> \<not> cancel s
      then s\<lparr>requests := requests s @ [(i, task_prompt cfg (source s ! i))],
             phases := (phases s)[i := InFlight attempts]\<rparr>
      else finish_body i Skipped s)"

text \<open>
  One call \<^verbatim>\<open>runConcurrent(task)\<close> of the \<^verbatim>\<open>map\<close> in \<^verbatim>\<open>handleStart\<close>, up to its first
  \<^verbatim>\<open>await\<close>.
\<close>

definition submit :: "config \<Rightarrow> nat \<Rightarrow> batch \<Rightarrow> batch" where
  "submit cfg i s =
     (if at_limit (limit_of cfg) (lim s)
      then s\<lparr>lim := wait_turn i (lim s), phases := (phases s)[i := Queued]\<rparr>
      else loop_head cfg i 0 (s\<lparr>lim := occupy (lim s)\<rparr>))"

definition handleStart :: "config \<Rightarrow> batch \<Rightarrow> batch" where
  "handleStart cfg s =
     (if apiKey cfg = [] then s\<lparr>message := Text ''Please provide your OpenAI API Key.''\<rparr>
      else if rows s = [] then s\<lparr>message := Text ''Please load a CSV first.''\<rparr>
      else
        fold (submit cfg) [0..<length (rows s)]
          (s\<lparr>cancel := False, status := Running, progress := 0, message := Text [],
             errorLog := [], source := rows s, updatedRows := rows s, completed := 0,
             promptTokens := 0, completionTokens := 0,
             phases := replicate (length (rows s)) Queued, requests := []\<rparr>))"

text \<open>
  What can happen next while a batch runs. Each event is one uninterrupted piece of the
  source: the continuation of a resolved waiter; the reply of a request (its content and
  the two usage counters) or its failure (the text \<^verbatim>\<open>e?.message || String(e)\<close>); the end
  of a backoff delay; the \<^verbatim>\<open>finally\<close> block of \<^verbatim>\<open>run\<close>; a click on Pause, which the
  button allows only while the status is running; and the code after
  \<^verbatim>\<open>await Promise.all(...)\<close>. A second click on Start is not an event: the button is
  disabled while the status is running. The other handlers of the component (loading a
  file or the sample, reset) are not part of the batch and are left out.
\<close>

datatype event =
    Resume nat
  | Reply nat string nat nat
  | Fail nat string
  | Wake nat
  | Finally nat
  | Pause
  | Complete

definition phase_of :: "batch \<Rightarrow> nat \<Rightarrow> phase option" where
  "phase_of s i = (if i < length (phases s) then Some (phases s ! i) else None)"

fun step :: "config \<Rightarrow> event \<Rightarrow> batch \<Rightarrow> batch option" where
  "step cfg (Resume i) s =
     (case phase_of s i of
        Some Resolved \<Rightarrow> Some (loop_head cfg i 0 (s\<lparr>lim := occupy (lim s)\<rparr>))
      | _ \<Rightarrow> None)"
| "step cfg (Reply i content pt ct) s =
     (case phase_of s i of
        Some (InFlight a) \<Rightarrow>
          Some (finish_body i Succeeded
            (s\<lparr>updatedRows := (updatedRows s)[i := augmented cfg (source s ! i) content],
               promptTokens := promptTokens s + pt,
               completionTokens := completionTokens s + ct\<rparr>))
      | _ \<Rightarrow> None)"
| "step cfg (Fail i msg) s =
     (case phase_of s i of
        Some (InFlight a) \<Rightarrow>
          (let attempts = a + 1;
               s1 = s\<lparr>errorLog := AList.update i msg (errorLog s)\<rparr>
           in if int attempts > maxRetries cfg
              then Some (finish_body i Exhausted
                     (s1\<lparr>updatedRows :=
                           (updatedRows s1)[i := exhausted_row cfg (source s ! i) msg]\<rparr>))
              else Some (s1\<lparr>phases := (phases s1)[i := Sleeping attempts]\<rparr>))
      | _ \<Rightarrow> None)"
| "step cfg (Wake i) s =
     (case phase_of s i of
        Some (Sleeping a) \<Rightarrow> Some (loop_head cfg i a s)
      | _ \<Rightarrow> None)"
| "step cfg (Finally i) s =
     (case phase_of s i of
        Some (Returned out) \<Rightarrow>
          (case vacate (lim s) of
             (nxt, L) \<Rightarrow>
               (let s1 = s\<lparr>lim := L, phases := (phases s)[i := Settled out]\<rparr>
                in Some (case nxt of
                           None \<Rightarrow> s1
                         | Some j \<Rightarrow> s1\<lparr>phases := (phases s1)[j := Resolved]\<rparr>)))
      | _ \<Rightarrow> None)"
| "step cfg Pause s =
     (if status s = Running then Some (s\<lparr>cancel := True\<rparr>) else None)"
| "step cfg Complete s =
     (if status s = Running \<and> list_all is_settled (phases s)
      then Some
        (if \<not> cancel s
         then (let pricing = estimateOpenAIPrice (model cfg) (promptTokens s) (completionTokens s)
               in s\<lparr>rows := updatedRows s, costInfo := pricing, status := Done,
                    message := DoneNotice (length (source s)) (totalUSD pricing)\<rparr>)
         else s\<lparr>status := Paused, message := Text ''Paused.''\<rparr>)
      else None)"

fun exec :: "config \<Rightarrow> event list \<Rightarrow> batch \<Rightarrow> batch option" where
  "exec cfg [] s = Some s"
| "exec cfg (e # es) s = (case step cfg e s of None \<Rightarrow> None | Some s' \<Rightarrow> exec cfg es s')"

text \<open>A state in which a batch can be started: a key, rows, and no call of the limiter left.\<close>

definition ready :: "config \<Rightarrow> batch \<Rightarrow> bool" where
  "ready cfg s \<longleftrightarrow> apiKey cfg \<noteq> [] \<and> rows s \<noteq> [] \<and> lim s = idle"

text \<open>The application after a file with the given rows has been loaded.\<close>

definition loaded :: "row list \<Rightarrow> batch" where
  "loaded rs =
     \<lparr>rows = rs, status = Idle, progress = 0, message = Text [], errorLog = [],
      costInfo = \<lparr>promptUSD = 0, completionUSD = 0, totalUSD = 0\<rparr>, cancel = False,
      lim = idle, source = [], updatedRows = [], completed = 0, promptTokens = 0,
      completionTokens = 0, phases = [], requests = []\<rparr>"

section \<open>Invariants of a running batch\<close>

text \<open>
  The predicates of this section describe the states a batch can reach; they are used in
  the proofs only. First, what the working copy holds at an index, by the point the task
  of that index has reached: the row written after a reply, the row written after the
  last failed attempt, or still the original row.
\<close>

fun outcome_row :: "config \<Rightarrow> row \<Rightarrow> outcome \<Rightarrow> row \<Rightarrow> bool" where
  "outcome_row cfg src Succeeded r = (\<exists>content. r = augmented cfg src content)"
| "outcome_row cfg src Exhausted r = (\<exists>msg. r = exhausted_row cfg src msg)"
| "outcome_row cfg src Skipped r = (r = src)"

fun phase_row :: "config \<Rightarrow> row \<Rightarrow> phase \<Rightarrow> row \<Rightarrow> bool" where
  "phase_row cfg src (Returned out) r = outcome_row cfg src out r"
| "phase_row cfg src (Settled out) r = outcome_row cfg src out r"
| "phase_row cfg src p r = (r = src)"

text \<open>The limiter's queue names each waiting task once, and only tasks that wait.\<close>

definition queue_ok :: "batch \<Rightarrow> bool" where
  "queue_ok s \<longleftrightarrow> distinct (queue (lim s)) \<and>
     (\<forall>j\<in>set (queue (lim s)). j < length (phases s) \<and> phases s ! j = Queued)"

text \<open>
  \<open>completed\<close> counts the tasks whose body has returned, and \<open>progress\<close> is the
  percentage last set from it.
\<close>

definition counted :: "batch \<Rightarrow> bool" where
  "counted s \<longleftrightarrow> completed s = length (filter is_returned (phases s)) \<and>
     progress s = progress_of (completed s) (length (source s))"

text \<open>
  While the status is running the visible rows are the captured ones. The status leaves
  running only through the tail of \<^verbatim>\<open>handleStart\<close>, with every task settled.
\<close>

definition steady :: "batch \<Rightarrow> bool" where
  "steady s \<longleftrightarrow>
     (status s = Running \<and> rows s = source s) \<or>
     (status s = Paused \<and> cancel s \<and> rows s = source s \<and> list_all is_settled (phases s)) \<or>
     (status s = Done \<and> \<not> cancel s \<and> rows s = updatedRows s \<and> list_all is_settled (phases s))"

definition rows_ok :: "config \<Rightarrow> batch \<Rightarrow> bool" where
  "rows_ok cfg s \<longleftrightarrow>
     (\<forall>i < length (phases s). phase_row cfg (source s ! i) (phases s ! i) (updatedRows s ! i))"

text \<open>
  The tasks that hold a slot of the limiter, the number of requests sent for a row, and
  the limiter's account: its counter is the number of slot holders, and slot holders
  plus resolved waiters never exceed the limit.
\<close>

fun is_active :: "phase \<Rightarrow> bool" where
  "is_active (InFlight a) = True"
| "is_active (Sleeping a) = True"
| "is_active (Returned out) = True"
| "is_active p = False"

definition sent :: "nat \<Rightarrow> batch \<Rightarrow> nat" where
  "sent i s = length (filter (\<lambda>r. fst r = i) (requests s))"

definition within_limit :: "config \<Rightarrow> batch \<Rightarrow> bool" where
  "within_limit cfg s \<longleftrightarrow>
     running (lim s) = int (length (filter is_active (phases s))) \<and>
     running (lim s) + int (length (filter (\<lambda>p. p = Resolved) (phases s))) \<le> limit_of cfg"

text \<open>The state of \<^verbatim>\<open>handleStart\<close> after the first \<open>k\<close> calls of its \<^verbatim>\<open>map\<close>.\<close>

definition starting :: "config \<Rightarrow> batch \<Rightarrow> nat \<Rightarrow> batch \<Rightarrow> bool" where
  "starting cfg u k s \<longleftrightarrow>
     source s = rows u \<and> rows s = rows u \<and> updatedRows s = rows u \<and>
     status s = Running \<and> \<not> cancel s \<and>
     length (phases s) = length (rows u) \<and>
     set (queue (lim s)) \<subseteq> {..<k} \<and> distinct (queue (lim s)) \<and>
     (\<forall>j < length (rows u). k \<le> j \<or> j \<in> set (queue (lim s)) \<longrightarrow> phases s ! j = Queued) \<and>
     (\<forall>j < k. phases s ! j = Queued \<or> phases s ! j = InFlight 0 \<and> 0 \<le> maxRetries cfg
           \<or> phases s ! j = Returned Skipped \<and> maxRetries cfg < 0) \<and>
     (\<forall>i. sent i s = (if i < k \<and> phases s ! i = InFlight 0 then 1 else 0)) \<and>
     filter (\<lambda>p. p = Resolved) (phases s) = [] \<and>
     counted s \<and> within_limit cfg s"

definition sound :: "config \<Rightarrow> batch \<Rightarrow> bool" where
  "sound cfg s \<longleftrightarrow>
     length (phases s) = length (source s) \<and> length (updatedRows s) = length (source s) \<and>
     queue_ok s \<and> counted s \<and> steady s \<and> rows_ok cfg s \<and> within_limit cfg s"




section \<open>A sample batch\<close>

text \<open>
  Three rows with the columns of the sample data set of \<^verbatim>\<open>loadSample\<close>, the default model,
  two slots, one retry, a parser that reads one reply, and two schedules: one in which
  Pause is clicked after the first reply, one in which row 1 fails twice and row 2 is
  answered with text that is not JSON. \<open>after es\<close> is the state after the events \<open>es\<close>.
\<close>

definition sample_rows :: "row list" where
  "sample_rows =
     [[(''id'', JStr ''1''), (''submission'', JStr ''ERP toolkit''), (''author'', JStr ''Team A'')],
      [(''id'', JStr ''2''), (''submission'', JStr ''Traceability''), (''author'', JStr ''Team B'')],
      [(''id'', JStr ''3''), (''submission'', JStr ''Energy SaaS''), (''author'', JStr ''Team C'')]]"

definition go_reply :: jsval where
  "go_reply = JObj [(''score'', JNum 5), (''decision'', JStr ''Go'')]"

definition sample_config :: config where
  "sample_config =
     \<lparr>apiKey = ''sk-test'', model = ''gpt-4o-mini'', userPrompt = ''Rate: {{submission}}'',
      concurrency = 2, maxRetries = 1, resultKey = ''evaluation'', textCol = ''submission'',
      jsonParse = (\<lambda>s. if s = stringify go_reply then Inr go_reply else Inl ''Unexpected token'')\<rparr>"

definition sample_start :: batch where
  "sample_start = handleStart sample_config (loaded sample_rows)"

definition paused_trace :: "event list" where
  "paused_trace =
     [Reply 0 (stringify go_reply) 10 20, Pause, Finally 0, Resume 2, Fail 1 ''boom'', Wake 1,
      Finally 2, Finally 1, Complete]"


definition after :: "event list \<Rightarrow> batch" where
  "after es = the (exec sample_config es sample_start)"

section \<open>Properties of the template renderer\<close>















section \<open>Properties of the cost estimate\<close>



section \<open>Properties of the limiter\<close>


text \<open>
  The bound does hold along every sequence of calls in which no submission arrives while
  a resolved waiter has yet to resume: each such step keeps the limiter's account.
\<close>

lemma pool_step_bound:
  assumes "pool_step limit c P = Some P'" and "pool_inv limit P"
    and "\<forall>t. c = Submit t \<longrightarrow> resolved P = []"
  shows "pool_inv limit P'"
proof (cases c)
  case (Submit t)
  with assms show ?thesis
    by (auto simp: pool_step_def pool_inv_def at_limit_def wait_turn_def occupy_def
        split: if_splits)
next
  case (Continue t)
  with assms have "t \<in> set (resolved P)"
    by (auto simp: pool_step_def split: if_splits)
  then have "0 < length (resolved P)" by (cases "resolved P") auto
  with \<open>t \<in> set (resolved P)\<close>
  have "int (length (remove1 t (resolved P))) = int (length (resolved P)) - 1"
    by (simp add: length_remove1 of_nat_diff Suc_leI)
  with Continue assms show ?thesis
    by (auto simp: pool_step_def pool_inv_def occupy_def split: if_splits)
next
  case (Finish t)
  with assms have "t \<in> set (inside P)"
    by (auto simp: pool_step_def split: if_splits)
  then have "0 < length (inside P)" by (cases "inside P") auto
  with \<open>t \<in> set (inside P)\<close>
  have "int (length (remove1 t (inside P))) = int (length (inside P)) - 1"
    by (simp add: length_remove1 of_nat_diff Suc_leI)
  with Finish assms show ?thesis
    by (auto simp: pool_step_def pool_inv_def vacate_def split: if_splits list.splits)
qed

section \<open>Properties of the response parser\<close>



















lemma indexOf_absent: "c \<notin> set s \<Longrightarrow> indexOf s c = - 1"
  by (induction s) auto

lemma indexOf_first: "c \<notin> set pre \<Longrightarrow> indexOf (pre @ c # rest) c = int (length pre)"
  by (induction pre) (auto simp: Let_def)

lemma indexOf_nth:
  "indexOf s c = i \<Longrightarrow> 0 \<le> i \<Longrightarrow> nat i < length s \<and> s ! nat i = c"
proof (induction s arbitrary: i)
  case Nil
  then show ?case by simp
next
  case (Cons x s)
  show ?case
  proof (cases "x = c")
    case True
    with Cons.prems show ?thesis by simp
  next
    case False
    with Cons.prems have j: "0 \<le> indexOf s c" "i = indexOf s c + 1"
      by (auto simp: Let_def split: if_splits)
    from Cons.IH[OF refl j(1)] have "nat (indexOf s c) < length s" "s ! nat (indexOf s c) = c"
      by simp_all
    with j show ?thesis by (simp add: nat_add_distrib)
  qed
qed

lemma lastIndexOf_last:
  "c \<notin> set post \<Longrightarrow> lastIndexOf (xs @ c # post) c = int (length xs)"
proof -
  assume "c \<notin> set post"
  then have "indexOf (rev post @ c # rev xs) c = int (length post)"
    using indexOf_first[of c "rev post" "rev xs"] by simp
  then show ?thesis by (simp add: lastIndexOf_def)
qed

lemma lastIndexOf_nth:
  assumes "lastIndexOf s c = j" and "0 \<le> j"
  shows "nat j < length s \<and> s ! nat j = c"
proof -
  let ?k = "indexOf (rev s) c"
  from assms have k: "0 \<le> ?k" and j: "j = int (length s) - 1 - ?k"
    by (auto simp: lastIndexOf_def Let_def split: if_splits)
  from indexOf_nth[OF refl k] have lt: "nat ?k < length s" and at: "rev s ! nat ?k = c"
    by simp_all
  from lt k j have nj: "nat j = length s - Suc (nat ?k)" by linarith
  from at lt have "s ! (length s - Suc (nat ?k)) = c" by (simp add: rev_nth)
  with nj lt show ?thesis by simp
qed

lemma slice_middle:
  "slice (pre @ m @ post) (int (length pre)) (int (length pre + length m)) = m"
  by (simp add: slice_def Let_def)

lemma split_two:
  assumes "i < j" and "j < length t"
  shows "t = take i t @ t ! i # take (j - Suc i) (drop (Suc i) t) @ t ! j # drop (Suc j) t"
proof -
  from assms have i: "i < length t" by simp
  have a: "t = take i t @ t ! i # drop (Suc i) t"
    by (rule id_take_nth_drop[OF i])
  let ?u = "drop (Suc i) t"
  from assms have k: "j - Suc i < length ?u" by simp
  have b: "?u = take (j - Suc i) ?u @ ?u ! (j - Suc i) # drop (Suc (j - Suc i)) ?u"
    by (rule id_take_nth_drop[OF k])
  from assms have c: "?u ! (j - Suc i) = t ! j" by simp
  from assms have d: "drop (Suc (j - Suc i)) ?u = drop (Suc j) t" by simp
  from b c d have "?u = take (j - Suc i) ?u @ t ! j # drop (Suc j) t" by simp
  with a show ?thesis by metis
qed

text \<open>
  Claim C7. \<open>parseJsonLoose\<close> is a total function into the tagged result. A blank input
  fails with \<open>empty\<close>. When the fence-stripped text parses, its value is returned. When it
  does not and the text has an opening brace with a closing brace somewhere behind it, the
  result is that of parsing the piece from the first opening brace to the last closing
  brace, both included: its value, or else the error of this second attempt. When no
  opening brace is followed by a closing one, the failure carries the error of the first
  attempt.
\<close>

theorem parseJsonLoose_cases:
  fixes parse :: "string \<Rightarrow> string + 'v"
  shows
  "(s = [] \<or> trim s = [] \<longrightarrow> parseJsonLoose parse s = Inl ''empty'') \<and>
   (trim s \<noteq> [] \<and> parse (stripCodeFences s) = Inr v \<longrightarrow> parseJsonLoose parse s = Inr v) \<and>
   (trim s \<noteq> [] \<and> parse (stripCodeFences s) = Inl e1 \<and>
    stripCodeFences s = pre @ CHR ''{'' # mid @ CHR ''}'' # post \<and>
    CHR ''{'' \<notin> set pre \<and> CHR ''}'' \<notin> set post \<longrightarrow>
      parseJsonLoose parse s = parse (CHR ''{'' # mid @ [CHR ''}''])) \<and>
   (trim s \<noteq> [] \<and> parse (stripCodeFences s) = Inl e1 \<and>
    (\<nexists>pre mid post. stripCodeFences s = pre @ CHR ''{'' # mid @ CHR ''}'' # post) \<longrightarrow>
      parseJsonLoose parse s = Inl e1)"
proof (intro conjI impI)
  assume "s = [] \<or> trim s = []"
  then show "parseJsonLoose parse s = Inl ''empty''"
    by (auto simp: parseJsonLoose_def)
next
  assume "trim s \<noteq> [] \<and> parse (stripCodeFences s) = Inr v"
  moreover then have "s \<noteq> []" by (auto simp: trim_def)
  ultimately show "parseJsonLoose parse s = Inr v"
    by (simp add: parseJsonLoose_def)
next
  let ?t = "stripCodeFences s"
  assume a: "trim s \<noteq> [] \<and> parse ?t = Inl e1 \<and>
    ?t = pre @ CHR ''{'' # mid @ CHR ''}'' # post \<and>
    CHR ''{'' \<notin> set pre \<and> CHR ''}'' \<notin> set post"
  then have ne: "s \<noteq> []" by (auto simp: trim_def)
  from a have t: "?t = pre @ CHR ''{'' # mid @ CHR ''}'' # post" by simp
  from a have st: "indexOf ?t CHR ''{'' = int (length pre)"
    unfolding t by (simp add: indexOf_first)
  from a have en: "lastIndexOf ?t CHR ''}'' = int (length pre + Suc (length mid))"
    unfolding t using lastIndexOf_last[of "CHR ''}''" post "pre @ CHR ''{'' # mid"] by simp
  have "slice (pre @ (CHR ''{'' # mid @ [CHR ''}'']) @ post) (int (length pre))
          (int (length pre + length (CHR ''{'' # mid @ [CHR ''}'']))) = CHR ''{'' # mid @ [CHR ''}'']"
    by (rule slice_middle)
  then have sl: "slice ?t (int (length pre)) (int (length pre + Suc (length mid)) + 1)
      = CHR ''{'' # mid @ [CHR ''}'']"
    unfolding t by (simp add: add.commute)
  from a have tr: "trim s \<noteq> []" and p1: "parse ?t = Inl e1" by blast+
  from ne tr p1 show "parseJsonLoose parse s = parse (CHR ''{'' # mid @ [CHR ''}''])"
    unfolding parseJsonLoose_def Let_def st en sl
    by (simp split: sum.splits)
next
  let ?t = "stripCodeFences s"
  assume a: "trim s \<noteq> [] \<and> parse ?t = Inl e1 \<and>
    (\<nexists>pre mid post. ?t = pre @ CHR ''{'' # mid @ CHR ''}'' # post)"
  then have ne: "s \<noteq> []" by (auto simp: trim_def)
  have "\<not> (0 \<le> indexOf ?t CHR ''{'' \<and> indexOf ?t CHR ''{'' < lastIndexOf ?t CHR ''}'')"
  proof
    assume b: "0 \<le> indexOf ?t CHR ''{'' \<and> indexOf ?t CHR ''{'' < lastIndexOf ?t CHR ''}''"
    let ?i = "nat (indexOf ?t CHR ''{'')" and ?j = "nat (lastIndexOf ?t CHR ''}'')"
    from b indexOf_nth[OF refl, of ?t "CHR ''{''"] have i: "?t ! ?i = CHR ''{''" by simp
    from b lastIndexOf_nth[OF refl, of ?t "CHR ''}''"]
    have j: "?j < length ?t" "?t ! ?j = CHR ''}''" by simp_all
    from b have "?i < ?j" by linarith
    from split_two[OF this j(1)] i j(2)
    have "?t = take ?i ?t @ CHR ''{'' # take (?j - Suc ?i) (drop (Suc ?i) ?t) @ CHR ''}'' # drop (Suc ?j) ?t"
      by simp
    with a show False by blast
  qed
  then have "(if 0 \<le> indexOf ?t CHR ''{'' \<and> indexOf ?t CHR ''{'' < lastIndexOf ?t CHR ''}''
      then (case parse (slice ?t (indexOf ?t CHR ''{'') (lastIndexOf ?t CHR ''}'' + 1)) of
              Inr v \<Rightarrow> Inr v | Inl e2 \<Rightarrow> Inl e2)
      else Inl e1) = (Inl e1 :: string + 'v)"
    by (rule if_not_P)
  moreover from a have "trim s \<noteq> []" and "parse ?t = Inl e1" by blast+
  ultimately show "parseJsonLoose parse s = Inl e1"
    using ne by (simp add: parseJsonLoose_def Let_def)
qed

text \<open>
  Witness for C7, with a parser that reads \<^verbatim>\<open>{}\<close> only and names the rejected text in its
  error: a blank input, a direct parse, a parse of the braces inside prose, a failure of
  both attempts, and a text without braces.
\<close>

theorem parseJsonLoose_cases_witness:
  "parseJsonLoose (\<lambda>s. if s = ''{}'' then Inr (JObj []) else Inl (''Unexpected: '' @ s)) ''  ''
     = Inl ''empty'' \<and>
   parseJsonLoose (\<lambda>s. if s = ''{}'' then Inr (JObj []) else Inl (''Unexpected: '' @ s)) '' {} ''
     = Inr (JObj []) \<and>
   parseJsonLoose (\<lambda>s. if s = ''{}'' then Inr (JObj []) else Inl (''Unexpected: '' @ s)) ''so: {} ok''
     = Inr (JObj []) \<and>
   parseJsonLoose (\<lambda>s. if s = ''{}'' then Inr (JObj []) else Inl (''Unexpected: '' @ s)) ''a {b} c''
     = Inl ''Unexpected: {b}'' \<and>
   parseJsonLoose (\<lambda>s. if s = ''{}'' then Inr (JObj []) else Inl (''Unexpected: '' @ s)) ''not json at all''
     = Inl ''Unexpected: not json at all''"
proof -
  let ?parse = "\<lambda>s. if s = ''{}'' then Inr (JObj []) else Inl (''Unexpected: '' @ s)"
  have blank: "''  '' = [] \<or> trim ''  '' = []" by code_simp
  have c1: "parseJsonLoose ?parse ''  '' = Inl ''empty''"
    by (rule parseJsonLoose_cases[of "''  ''" ?parse,
          THEN conjunct1, THEN mp, OF blank])
  have direct: "trim '' {} '' \<noteq> [] \<and> ?parse (stripCodeFences '' {} '') = Inr (JObj [])"
    by code_simp
  have c2: "parseJsonLoose ?parse '' {} '' = Inr (JObj [])"
    by (rule parseJsonLoose_cases[of "'' {} ''" ?parse "JObj []",
          THEN conjunct2, THEN conjunct1, THEN mp, OF direct])
  have brace: "trim ''so: {} ok'' \<noteq> [] \<and>
      ?parse (stripCodeFences ''so: {} ok'') = Inl ''Unexpected: so: {} ok'' \<and>
      stripCodeFences ''so: {} ok'' = ''so: '' @ CHR ''{'' # [] @ CHR ''}'' # '' ok'' \<and>
      CHR ''{'' \<notin> set ''so: '' \<and> CHR ''}'' \<notin> set '' ok''"
    by code_simp
  have "parseJsonLoose ?parse ''so: {} ok'' = ?parse (CHR ''{'' # [] @ [CHR ''}''])"
    by (rule parseJsonLoose_cases[of "''so: {} ok''" ?parse _ "''Unexpected: so: {} ok''"
          "''so: ''" "[]" "'' ok''",
          THEN conjunct2, THEN conjunct2, THEN conjunct1, THEN mp, OF brace])
  then have c3: "parseJsonLoose ?parse ''so: {} ok'' = Inr (JObj [])" by simp
  have brace2: "trim ''a {b} c'' \<noteq> [] \<and>
      ?parse (stripCodeFences ''a {b} c'') = Inl ''Unexpected: a {b} c'' \<and>
      stripCodeFences ''a {b} c'' = ''a '' @ CHR ''{'' # ''b'' @ CHR ''}'' # '' c'' \<and>
      CHR ''{'' \<notin> set ''a '' \<and> CHR ''}'' \<notin> set '' c''"
    by code_simp
  have "parseJsonLoose ?parse ''a {b} c'' = ?parse (CHR ''{'' # ''b'' @ [CHR ''}''])"
    by (rule parseJsonLoose_cases[of "''a {b} c''" ?parse _ "''Unexpected: a {b} c''"
          "''a ''" "''b''" "'' c''",
          THEN conjunct2, THEN conjunct2, THEN conjunct1, THEN mp, OF brace2])
  then have c4: "parseJsonLoose ?parse ''a {b} c'' = Inl ''Unexpected: {b}''" by simp
  have st: "stripCodeFences ''not json at all'' = ''not json at all''" by code_simp
  have none: "\<nexists>pre mid post. stripCodeFences ''not json at all'' = pre @ CHR ''{'' # mid @ CHR ''}'' # post"
  proof
    assume "\<exists>pre mid post. stripCodeFences ''not json at all'' = pre @ CHR ''{'' # mid @ CHR ''}'' # post"
    then obtain pre mid post where
      e: "''not json at all'' = pre @ CHR ''{'' # mid @ CHR ''}'' # post"
      unfolding st by blast
    have "CHR ''{'' \<in> set (pre @ CHR ''{'' # mid @ CHR ''}'' # post)" by simp
    then have "CHR ''{'' \<in> set ''not json at all''" unfolding e[symmetric] .
    then show False by simp
  qed
  have rest: "trim ''not json at all'' \<noteq> [] \<and>
      ?parse (stripCodeFences ''not json at all'') = Inl ''Unexpected: not json at all''"
    by code_simp
  from rest none have h4: "trim ''not json at all'' \<noteq> [] \<and>
      ?parse (stripCodeFences ''not json at all'') = Inl ''Unexpected: not json at all'' \<and>
      (\<nexists>pre mid post. stripCodeFences ''not json at all'' = pre @ CHR ''{'' # mid @ CHR ''}'' # post)"
    by blast
  have c5: "parseJsonLoose ?parse ''not json at all'' = Inl ''Unexpected: not json at all''"
    by (rule parseJsonLoose_cases[of "''not json at all''" ?parse _ "''Unexpected: not json at all''",
          THEN conjunct2, THEN conjunct2, THEN conjunct2, THEN mp, OF h4])
  from c1 c2 c3 c4 c5 show ?thesis by blast
qed

section \<open>Properties of the batch orchestrator\<close>

lemmas body_defs = loop_head_def finish_body_def occupy_def

lemma step_cases [consumes 1, case_names Resume_enter Resume_skip Reply_ok Fail_last Fail_retry
    Wake_enter Wake_skip Finally_none Finally_next Pause_click Complete_done Complete_paused]:
  assumes "step cfg e s = Some s'"
  obtains
    (Resume_enter) i where "e = Resume i" "i < length (phases s)" "phases s ! i = Resolved"
      "0 \<le> maxRetries cfg" "\<not> cancel s"
      "s' = s\<lparr>lim := (lim s)\<lparr>running := running (lim s) + 1\<rparr>,
               requests := requests s @ [(i, task_prompt cfg (source s ! i))],
               phases := (phases s)[i := InFlight 0]\<rparr>"
  | (Resume_skip) i where "e = Resume i" "i < length (phases s)" "phases s ! i = Resolved"
      "maxRetries cfg < 0 \<or> cancel s"
      "s' = s\<lparr>lim := (lim s)\<lparr>running := running (lim s) + 1\<rparr>,
               completed := completed s + 1,
               progress := progress_of (completed s + 1) (length (source s)),
               phases := (phases s)[i := Returned Skipped]\<rparr>"
  | (Reply_ok) i content pt ct a where "e = Reply i content pt ct" "i < length (phases s)"
      "phases s ! i = InFlight a"
      "s' = s\<lparr>updatedRows := (updatedRows s)[i := augmented cfg (source s ! i) content],
               promptTokens := promptTokens s + pt,
               completionTokens := completionTokens s + ct,
               completed := completed s + 1,
               progress := progress_of (completed s + 1) (length (source s)),
               phases := (phases s)[i := Returned Succeeded]\<rparr>"
  | (Fail_last) i msg a where "e = Fail i msg" "i < length (phases s)"
      "phases s ! i = InFlight a" "maxRetries cfg < int a + 1"
      "s' = s\<lparr>errorLog := AList.update i msg (errorLog s),
               updatedRows := (updatedRows s)[i := exhausted_row cfg (source s ! i) msg],
               completed := completed s + 1,
               progress := progress_of (completed s + 1) (length (source s)),
               phases := (phases s)[i := Returned Exhausted]\<rparr>"
  | (Fail_retry) i msg a where "e = Fail i msg" "i < length (phases s)"
      "phases s ! i = InFlight a" "int a + 1 \<le> maxRetries cfg"
      "s' = s\<lparr>errorLog := AList.update i msg (errorLog s),
               phases := (phases s)[i := Sleeping (a + 1)]\<rparr>"
  | (Wake_enter) i a where "e = Wake i" "i < length (phases s)" "phases s ! i = Sleeping a"
      "int a \<le> maxRetries cfg" "\<not> cancel s"
      "s' = s\<lparr>requests := requests s @ [(i, task_prompt cfg (source s ! i))],
               phases := (phases s)[i := InFlight a]\<rparr>"
  | (Wake_skip) i a where "e = Wake i" "i < length (phases s)" "phases s ! i = Sleeping a"
      "maxRetries cfg < int a \<or> cancel s"
      "s' = s\<lparr>completed := completed s + 1,
               progress := progress_of (completed s + 1) (length (source s)),
               phases := (phases s)[i := Returned Skipped]\<rparr>"
  | (Finally_none) i out where "e = Finally i" "i < length (phases s)"
      "phases s ! i = Returned out" "queue (lim s) = []"
      "s' = s\<lparr>lim := (lim s)\<lparr>running := running (lim s) - 1\<rparr>,
               phases := (phases s)[i := Settled out]\<rparr>"
  | (Finally_next) i out j js where "e = Finally i" "i < length (phases s)"
      "phases s ! i = Returned out" "queue (lim s) = j # js"
      "s' = s\<lparr>lim := (lim s)\<lparr>running := running (lim s) - 1, queue := js\<rparr>,
               phases := (phases s)[i := Settled out, j := Resolved]\<rparr>"
  | (Pause_click) "e = Pause" "status s = Running" "s' = s\<lparr>cancel := True\<rparr>"
  | (Complete_done) "e = Complete" "status s = Running" "list_all is_settled (phases s)"
      "\<not> cancel s"
      "s' = s\<lparr>rows := updatedRows s,
               costInfo := estimateOpenAIPrice (model cfg) (promptTokens s) (completionTokens s),
               status := Done,
               message := DoneNotice (length (source s))
                 (totalUSD (estimateOpenAIPrice (model cfg) (promptTokens s) (completionTokens s)))\<rparr>"
  | (Complete_paused) "e = Complete" "status s = Running" "list_all is_settled (phases s)"
      "cancel s" "s' = s\<lparr>status := Paused, message := Text ''Paused.''\<rparr>"
proof (cases e)
  case (Resume i)
  with assms have p: "i < length (phases s)" "phases s ! i = Resolved"
    and s': "s' = loop_head cfg i 0 (s\<lparr>lim := occupy (lim s)\<rparr>)"
    by (auto simp: phase_of_def split: if_splits phase.splits)
  show thesis
  proof (cases "0 \<le> maxRetries cfg \<and> \<not> cancel s")
    case True
    with s' show thesis
      by (intro Resume_enter[OF Resume p]) (simp_all add: body_defs)
  next
    case False
    with s' show thesis
      by (intro Resume_skip[OF Resume p]) (auto simp: body_defs)
  qed
next
  case (Reply i content pt ct)
  with assms obtain a where p: "i < length (phases s)" "phases s ! i = InFlight a"
    and s': "s' = finish_body i Succeeded
            (s\<lparr>updatedRows := (updatedRows s)[i := augmented cfg (source s ! i) content],
               promptTokens := promptTokens s + pt,
               completionTokens := completionTokens s + ct\<rparr>)"
    by (auto simp: phase_of_def split: if_splits phase.splits)
  then show thesis
    by (intro Reply_ok[OF Reply p]) (simp add: body_defs)
next
  case (Fail i msg)
  with assms obtain a where p: "i < length (phases s)" "phases s ! i = InFlight a"
    and s': "s' = (if int (a + 1) > maxRetries cfg
              then finish_body i Exhausted
                     (s\<lparr>errorLog := AList.update i msg (errorLog s),
                        updatedRows := (updatedRows s)[i := exhausted_row cfg (source s ! i) msg]\<rparr>)
              else s\<lparr>errorLog := AList.update i msg (errorLog s),
                     phases := (phases s)[i := Sleeping (a + 1)]\<rparr>)"
    by (auto simp: phase_of_def Let_def split: if_splits phase.splits)
  show thesis
  proof (cases "maxRetries cfg < int a + 1")
    case True
    with s' show thesis
      by (intro Fail_last[OF Fail p]) (simp_all add: body_defs)
  next
    case False
    with s' show thesis
      by (intro Fail_retry[OF Fail p]) (simp_all add: body_defs)
  qed
next
  case (Wake i)
  with assms obtain a where p: "i < length (phases s)" "phases s ! i = Sleeping a"
    and s': "s' = loop_head cfg i a s"
    by (auto simp: phase_of_def split: if_splits phase.splits)
  show thesis
  proof (cases "int a \<le> maxRetries cfg \<and> \<not> cancel s")
    case True
    with s' show thesis
      by (intro Wake_enter[OF Wake p]) (simp_all add: body_defs)
  next
    case False
    with s' show thesis
      by (intro Wake_skip[OF Wake p]) (auto simp: body_defs)
  qed
next
  case (Finally i)
  with assms obtain out where p: "i < length (phases s)" "phases s ! i = Returned out"
    and s': "s' = (case queue (lim s) of
                [] \<Rightarrow> s\<lparr>lim := (lim s)\<lparr>running := running (lim s) - 1\<rparr>,
                        phases := (phases s)[i := Settled out]\<rparr>
              | j # js \<Rightarrow> s\<lparr>lim := (lim s)\<lparr>running := running (lim s) - 1, queue := js\<rparr>,
                           phases := (phases s)[i := Settled out, j := Resolved]\<rparr>)"
    by (auto simp: phase_of_def vacate_def Let_def split: if_splits phase.splits list.splits)
  show thesis
  proof (cases "queue (lim s)")
    case Nil
    with s' show thesis
      by (intro Finally_none[OF Finally p]) simp_all
  next
    case (Cons j js)
    with s' show thesis
      by (intro Finally_next[OF Finally p]) simp_all
  qed
next
  case Pause
  with assms show thesis
    by (intro Pause_click) (auto split: if_splits)
next
  case Complete
  with assms have p: "status s = Running" "list_all is_settled (phases s)"
    by (auto split: if_splits)
  show thesis
  proof (cases "cancel s")
    case True
    with assms Complete p show thesis
      by (intro Complete_paused) simp_all
  next
    case False
    with assms Complete p show thesis
      by (intro Complete_done) (simp_all add: Let_def)
  qed
qed

declare step.simps [simp del]

lemma count_update:
  "i < length xs \<Longrightarrow>
     length (filter P (xs[i := y])) + (if P (xs ! i) then 1 else 0) =
     length (filter P xs) + (if P y then 1 else 0)"
proof (induction xs arbitrary: i)
  case Nil
  then show ?case by simp
next
  case (Cons x xs)
  then show ?case by (cases i) auto
qed

lemma step_frame:
  assumes "step cfg e s = Some s'"
  shows "source s' = source s \<and> length (phases s') = length (phases s) \<and>
     length (updatedRows s') = length (updatedRows s)"
  using assms by (cases rule: step_cases) simp_all

lemma queue_ok_step:
  assumes "step cfg e s = Some s'" and "queue_ok s"
  shows "queue_ok s'"
  using assms by (cases rule: step_cases) (auto simp: queue_ok_def nth_list_update)

lemma count_returned_update:
  assumes "i < length ps"
  shows "length (filter is_returned (ps[i := p])) =
         (if is_returned p \<and> \<not> is_returned (ps ! i) then length (filter is_returned ps) + 1
          else if \<not> is_returned p \<and> is_returned (ps ! i) then length (filter is_returned ps) - 1
          else length (filter is_returned ps))"
  using count_update[OF assms, of is_returned p] by (auto split: if_splits)

lemma counted_step:
  assumes "step cfg e s = Some s'" and "queue_ok s" and "counted s"
  shows "counted s'"
  using assms
  by (cases rule: step_cases)
     (auto simp: counted_def queue_ok_def count_returned_update nth_list_update)

lemma steady_step:
  assumes "step cfg e s = Some s'" and "steady s"
  shows "steady s'"
  using assms
  by (cases rule: step_cases) (auto simp: steady_def list_all_length)

lemma rows_ok_step:
  assumes "step cfg e s = Some s'" and "queue_ok s"
    and "length (updatedRows s) = length (phases s)" and "rows_ok cfg s"
  shows "rows_ok cfg s'"
  using assms
  by (cases rule: step_cases) (auto simp: rows_ok_def queue_ok_def nth_list_update)




lemma filter_update_none:
  assumes "filter Q ps = []" and "\<not> Q p"
  shows "filter Q (ps[i := p]) = []"
  using assms by (auto simp: filter_empty_conv dest: set_update_subset_insert[THEN subsetD])

lemma count_active_update:
  assumes "i < length ps"
  shows "int (length (filter Q (ps[i := p]))) =
         int (length (filter Q ps)) + (if Q p then 1 else 0) - (if Q (ps ! i) then 1 else 0)"
  using count_update[OF assms, of Q p] by (auto split: if_splits)

lemma starting_init:
  assumes "lim u = idle"
  shows "starting cfg u 0
     (u\<lparr>cancel := False, status := Running, progress := 0, message := Text [],
        errorLog := [], source := rows u, updatedRows := rows u, completed := 0,
        promptTokens := 0, completionTokens := 0,
        phases := replicate (length (rows u)) Queued, requests := []\<rparr>)"
  using assms
  by (simp add: starting_def counted_def within_limit_def sent_def idle_def progress_of_def
      limit_of_def)

lemma starting_submit:
  assumes "starting cfg u k s" and "k < length (rows u)"
  shows "starting cfg u (Suc k) (submit cfg k s)"
proof (cases "at_limit (limit_of cfg) (lim s)")
  case True
  from assms have q: "phases s ! k = Queued" "k \<notin> set (queue (lim s))"
    by (auto simp: starting_def)
  then have same: "(phases s)[k := Queued] = phases s"
    by (metis list_update_id)
  from True have s': "submit cfg k s = s\<lparr>lim := (lim s)\<lparr>queue := queue (lim s) @ [k]\<rparr>\<rparr>"
    by (simp add: submit_def wait_turn_def same)
  from assms q show ?thesis
    unfolding s' starting_def counted_def within_limit_def sent_def
    by (auto simp: less_Suc_eq)
next
  case False
  from assms have q: "phases s ! k = Queued" "k \<notin> set (queue (lim s))" "k < length (phases s)"
    by (auto simp: starting_def)
  show ?thesis
  proof (cases "0 \<le> maxRetries cfg")
    case True
    from assms have nc: "\<not> cancel s" by (simp add: starting_def)
    from False True nc
    have s': "submit cfg k s = s\<lparr>lim := (lim s)\<lparr>running := running (lim s) + 1\<rparr>,
               requests := requests s @ [(k, task_prompt cfg (source s ! k))],
               phases := (phases s)[k := InFlight 0]\<rparr>"
      by (simp add: submit_def body_defs)
    from assms q False True show ?thesis
      unfolding s' starting_def counted_def within_limit_def sent_def
      by (auto simp: less_Suc_eq nth_list_update count_returned_update count_active_update
          at_limit_def filter_update_none)
  next
    case neg: False
    from False neg
    have s': "submit cfg k s = s\<lparr>lim := (lim s)\<lparr>running := running (lim s) + 1\<rparr>,
               completed := completed s + 1,
               progress := progress_of (completed s + 1) (length (source s)),
               phases := (phases s)[k := Returned Skipped]\<rparr>"
      by (simp add: submit_def body_defs)
    from assms q False neg show ?thesis
      unfolding s' starting_def counted_def within_limit_def sent_def
      by (auto simp: less_Suc_eq nth_list_update count_returned_update count_active_update
          at_limit_def filter_update_none)
  qed
qed

lemma starting_fold:
  assumes "starting cfg u 0 s0" and "k \<le> length (rows u)"
  shows "starting cfg u k (fold (submit cfg) [0..<k] s0)"
  using assms(2)
proof (induction k)
  case 0
  with assms(1) show ?case by simp
next
  case (Suc k)
  then have "starting cfg u k (fold (submit cfg) [0..<k] s0)" by simp
  from starting_submit[OF this] Suc.prems show ?case by simp
qed

lemma handleStart_starting:
  assumes "ready cfg u"
  shows "starting cfg u (length (rows u)) (handleStart cfg u)"
proof -
  from assms have r: "apiKey cfg \<noteq> []" "rows u \<noteq> []" "lim u = idle"
    by (simp_all add: ready_def)
  from starting_fold[OF starting_init[OF r(3)] order_refl] r(1,2)
  show ?thesis by (simp add: handleStart_def)
qed

lemma within_limit_step:
  assumes "step cfg e s = Some s'" and "queue_ok s" and "within_limit cfg s"
  shows "within_limit cfg s'"
  using assms
  by (cases rule: step_cases)
     (auto simp: within_limit_def queue_ok_def count_active_update nth_list_update)

lemma sound_step:
  assumes "step cfg e s = Some s'" and "sound cfg s"
  shows "sound cfg s' \<and> source s' = source s"
proof -
  from assms(2) have l: "length (updatedRows s) = length (phases s)" and q: "queue_ok s"
    by (simp_all add: sound_def)
  from step_frame[OF assms(1)] queue_ok_step[OF assms(1) q] counted_step[OF assms(1) q]
    steady_step[OF assms(1)] rows_ok_step[OF assms(1) q l] within_limit_step[OF assms(1) q]
    assms(2)
  show ?thesis by (simp add: sound_def)
qed

lemma sound_exec:
  assumes "exec cfg es s = Some s'" and "sound cfg s"
  shows "sound cfg s' \<and> source s' = source s"
  using assms
proof (induction es arbitrary: s)
  case Nil
  then show ?case by simp
next
  case (Cons e es)
  from Cons.prems(1) obtain t where t: "step cfg e s = Some t" and r: "exec cfg es t = Some s'"
    by (auto split: option.splits)
  from sound_step[OF t Cons.prems(2)] Cons.IH[OF r] show ?case by simp
qed

lemma sound_start:
  assumes "ready cfg u"
  shows "sound cfg (handleStart cfg u) \<and> source (handleStart cfg u) = rows u"
proof -
  let ?s = "handleStart cfg u"
  from handleStart_starting[OF assms] have o: "starting cfg u (length (rows u)) ?s" .
  then have "queue_ok ?s"
    by (auto simp: starting_def queue_ok_def)
  moreover from o have "steady ?s" by (simp add: starting_def steady_def)
  moreover from o have "rows_ok cfg ?s"
  proof -
    have "phase_row cfg (source ?s ! i) (phases ?s ! i) (updatedRows ?s ! i)"
      if "i < length (phases ?s)" for i
    proof -
      from o that have "phases ?s ! i = Queued \<or> phases ?s ! i = InFlight 0
          \<or> phases ?s ! i = Returned Skipped"
        by (auto simp: starting_def)
      with o show ?thesis by (auto simp: starting_def)
    qed
    then show ?thesis by (simp add: rows_ok_def)
  qed
  ultimately show ?thesis using o by (simp add: sound_def starting_def)
qed

lemma sound_reach:
  assumes "ready cfg u" and "exec cfg es (handleStart cfg u) = Some s"
  shows "sound cfg s \<and> source s = rows u"
  using sound_exec[OF assms(2)] sound_start[OF assms(1)] by simp

lemma exec_append:
  "exec cfg (es1 @ es2) s = (case exec cfg es1 s of None \<Rightarrow> None | Some t \<Rightarrow> exec cfg es2 t)"
  by (induction es1 arbitrary: s) (auto split: option.splits)

lemma progress_of_full: "0 < n \<Longrightarrow> progress_of n n = 100"
  by (simp add: progress_of_def)

lemma progress_of_mono: "c \<le> c' \<Longrightarrow> progress_of c n \<le> progress_of c' n"
  unfolding progress_of_def
  by (intro round_mono mult_right_mono divide_right_mono) simp_all

lemma progress_of_range: "c \<le> n \<Longrightarrow> 0 \<le> progress_of c n \<and> progress_of c n \<le> 100"
proof -
  assume le: "c \<le> n"
  have "progress_of 0 n \<le> progress_of c n" by (rule progress_of_mono) simp
  moreover have "progress_of 0 n = 0" by (simp add: progress_of_def)
  moreover have "progress_of c n \<le> 100"
  proof (cases "n = 0")
    case True
    with le show ?thesis by (simp add: progress_of_def)
  next
    case False
    from progress_of_mono[OF le, of n] progress_of_full[of n] False show ?thesis by simp
  qed
  ultimately show ?thesis by simp
qed

lemma all_settled_count:
  "list_all is_settled ps \<Longrightarrow> length (filter is_returned ps) = length ps"
proof (induction ps)
  case Nil
  then show ?case by simp
next
  case (Cons p ps)
  then show ?case by (cases p) auto
qed


lemma reach_facts:
  assumes "ready cfg u" and "exec cfg es (handleStart cfg u) = Some s"
  shows "length (phases s) = length (rows u)" and "0 < length (rows u)"
    and "completed s = length (filter is_returned (phases s))"
    and "completed s \<le> length (rows u)"
    and "progress s = progress_of (completed s) (length (rows u))"
    and "status s \<noteq> Running \<Longrightarrow> list_all is_settled (phases s)"
    and "list_all is_settled (phases s) \<Longrightarrow> completed s = length (rows u)"
proof -
  from sound_reach[OF assms] have s: "sound cfg s" and src: "source s = rows u" by simp_all
  from s src show l: "length (phases s) = length (rows u)" by (simp add: sound_def)
  from assms(1) show "0 < length (rows u)" by (simp add: ready_def)
  from s show c: "completed s = length (filter is_returned (phases s))"
    by (simp add: sound_def counted_def)
  have "length (filter is_returned (phases s)) \<le> length (phases s)" by (rule length_filter_le)
  with c l show "completed s \<le> length (rows u)" by simp
  from s src show "progress s = progress_of (completed s) (length (rows u))"
    by (simp add: sound_def counted_def)
  from s show "status s \<noteq> Running \<Longrightarrow> list_all is_settled (phases s)"
    by (auto simp: sound_def steady_def)
  from c l all_settled_count[of "phases s"]
  show "list_all is_settled (phases s) \<Longrightarrow> completed s = length (rows u)" by simp
qed

text \<open>
  When all tasks of a batch have settled, the limiter is idle again, as the next batch
  needs it.
\<close>

lemma settled_idle:
  assumes "ready cfg u" and "exec cfg es (handleStart cfg u) = Some s"
    and "list_all is_settled (phases s)"
  shows "lim s = idle"
proof -
  from sound_reach[OF assms(1,2)] have s: "sound cfg s" by simp
  have "\<not> is_active p" if "is_settled p" for p
    using that by (cases p) auto
  with assms(3) have none: "filter is_active (phases s) = []"
    by (auto simp: filter_empty_conv list_all_iff)
  with s have r: "running (lim s) = 0" by (simp add: sound_def within_limit_def)
  have q: "queue (lim s) = []"
  proof (rule ccontr)
    assume "queue (lim s) \<noteq> []"
    then obtain j where j: "j \<in> set (queue (lim s))" by (cases "queue (lim s)") auto
    with s have "j < length (phases s)" "phases s ! j = Queued"
      by (auto simp: sound_def queue_ok_def)
    with assms(3) show False by (auto simp: list_all_length)
  qed
  from r q show ?thesis by (simp add: idle_def)
qed

text \<open>
  Within a batch, where all calls of the limiter are made by one \<^verbatim>\<open>map\<close> before anything
  else runs, the counter is the number of slot holders and stays within the limit.
\<close>

lemma batch_within_limit:
  assumes "ready cfg u" and "exec cfg es (handleStart cfg u) = Some s"
  shows "running (lim s) = int (length (filter is_active (phases s))) \<and>
         running (lim s) \<le> limit_of cfg \<and> 1 \<le> limit_of cfg"
proof -
  from sound_reach[OF assms] have "within_limit cfg s" by (simp add: sound_def)
  then show ?thesis by (auto simp: within_limit_def limit_of_def)
qed

lemma after_split:
  assumes "exec sample_config (es1 @ es2) sample_start \<noteq> None"
  shows "exec sample_config es1 sample_start = Some (after es1) \<and>
         exec sample_config es2 (after es1) = Some (after (es1 @ es2))"
proof -
  from assms obtain s' where s': "exec sample_config (es1 @ es2) sample_start = Some s'"
    by blast
  then obtain t where t: "exec sample_config es1 sample_start = Some t"
      "exec sample_config es2 t = Some s'"
    by (auto simp: exec_append split: option.splits)
  with s' show ?thesis by (simp add: after_def)
qed

lemma after_step:
  assumes "exec sample_config (es @ [e]) sample_start \<noteq> None"
  shows "step sample_config e (after es) = Some (after (es @ [e]))"
  using after_split[OF assms] by (auto split: option.splits)

lemma sample_ready: "ready sample_config (loaded sample_rows)"
  by code_simp

lemma paused_runs: "exec sample_config paused_trace sample_start \<noteq> None"
  by code_simp


lemma paused_parts:
  "exec sample_config (take k paused_trace) sample_start = Some (after (take k paused_trace)) \<and>
   exec sample_config (drop k paused_trace) (after (take k paused_trace)) = Some (after paused_trace)"
  using after_split[of "take k paused_trace" "drop k paused_trace"] paused_runs by simp


text \<open>
  Claim C10. In every state a batch reaches, \<open>completed\<close> is the number of tasks whose
  body has returned. A task that resumes from the queue, or wakes from its backoff
  delay, with the cancellation flag set returns at once without a request and increments
  the counter. Hence once all tasks have settled the counter is the number of rows and
  the reported progress is 100, also when the batch ends as paused.
\<close>

theorem every_task_counts:
  assumes "ready cfg u" and "exec cfg es (handleStart cfg u) = Some s"
  shows "completed s = length (filter is_returned (phases s)) \<and>
         (\<forall>i s'. cancel s \<and> (step cfg (Resume i) s = Some s' \<or> step cfg (Wake i) s = Some s') \<longrightarrow>
             phases s' ! i = Returned Skipped \<and> completed s' = completed s + 1) \<and>
         (list_all is_settled (phases s) \<longrightarrow>
             completed s = length (rows u) \<and> progress s = 100 \<and> progressValue (progress s) = 100) \<and>
         (status s = Paused \<longrightarrow> progress s = 100 \<and> progressValue (progress s) = 100)"
proof -
  note f = reach_facts[OF assms]
  have skip: "phases s' ! i = Returned Skipped \<and> completed s' = completed s + 1"
    if "cancel s" and "step cfg (Resume i) s = Some s' \<or> step cfg (Wake i) s = Some s'" for i s'
    using that(2)
  proof
    assume "step cfg (Resume i) s = Some s'"
    then show ?thesis using that(1) by (cases rule: step_cases) auto
  next
    assume "step cfg (Wake i) s = Some s'"
    then show ?thesis using that(1) by (cases rule: step_cases) auto
  qed
  have full: "completed s = length (rows u) \<and> progress s = 100 \<and> progressValue (progress s) = 100"
    if "list_all is_settled (phases s)"
    using f(2) f(5) f(7)[OF that] by (simp add: progress_of_full progressValue_def)
  from f(6) have "status s = Paused \<Longrightarrow> list_all is_settled (phases s)" by simp
  with f(3) skip full show ?thesis by blast
qed

text \<open>
  Witness for C10: the paused schedule of the sample batch. Row 2 leaves the queue after
  the pause and is skipped; the batch ends paused with all three tasks counted and the
  progress at 100.
\<close>

theorem every_task_counts_witness:
  "ready sample_config (loaded sample_rows) \<and>
   exec sample_config paused_trace (handleStart sample_config (loaded sample_rows)) \<noteq> None \<and>
   list_all is_settled (phases (after paused_trace)) \<and>
   status (after paused_trace) = Paused \<and>
   completed (after paused_trace) = 3 \<and>
   progress (after paused_trace) = 100 \<and>
   progressValue (progress (after paused_trace)) = 100 \<and>
   cancel (after (take 3 paused_trace)) \<and>
   step sample_config (Resume 2) (after (take 3 paused_trace)) = Some (after (take 4 paused_trace)) \<and>
   phases (after (take 4 paused_trace)) ! 2 = Returned Skipped \<and>
   completed (after (take 4 paused_trace)) = completed (after (take 3 paused_trace)) + 1"
proof -
  have full: "exec sample_config paused_trace (handleStart sample_config (loaded sample_rows))
      = Some (after paused_trace)"
    using paused_parts[of "length paused_trace"] by (simp add: sample_start_def)
  have part: "exec sample_config (take 3 paused_trace) (handleStart sample_config (loaded sample_rows))
      = Some (after (take 3 paused_trace))"
    using paused_parts[of 3] by (simp add: sample_start_def)
  have t4: "take 4 paused_trace = take 3 paused_trace @ [Resume 2]"
    by (simp add: paused_trace_def)
  have "exec sample_config (take 3 paused_trace @ [Resume 2]) sample_start \<noteq> None"
    using paused_parts[of 4] unfolding t4 by simp
  from after_step[OF this]
  have st: "step sample_config (Resume 2) (after (take 3 paused_trace))
      = Some (after (take 4 paused_trace))"
    unfolding t4 .
  have c: "cancel (after (take 3 paused_trace))" by code_simp
  have settled: "list_all is_settled (phases (after paused_trace))" by code_simp
  have paused: "status (after paused_trace) = Paused" by code_simp
  have len: "length (rows (loaded sample_rows)) = 3" by code_simp
  note A = every_task_counts[OF sample_ready full]
  note B = every_task_counts[OF sample_ready part]
  from A settled len have a: "completed (after paused_trace) = 3"
    "progress (after paused_trace) = 100" "progressValue (progress (after paused_trace)) = 100"
    by (simp_all add: progressValue_def)
  from B c st have b: "phases (after (take 4 paused_trace)) ! 2 = Returned Skipped"
    "completed (after (take 4 paused_trace)) = completed (after (take 3 paused_trace)) + 1"
    by blast+
  from sample_ready full settled paused a c st b show ?thesis by simp
qed















end
